theory Spec2Isabelle
  imports Complex_Main
begin

section \<open>The task monitor of the Hive Mind wizard\<close>

text \<open>
  A shallow embedding of class \<open>TaskMonitor\<close> of
  \<open>apps/cortex-os/packages/agents/src/legacy-instructions/wizard.ts\<close> (lines 677 to 903).
  Times are integer milliseconds, as \<open>Date.now()\<close> and \<open>getTime()\<close> return them. The
  numbers \<open>progress\<close> and \<open>Math.random()\<close> are real numbers and the arithmetic of lines
  762 and 790 to 793 is exact here, where the code rounds every operation to a double:
  near the thresholds 10 and 95, and in the value of the estimate, the code can differ
  from this model by one rounding. The properties below are about the order of the
  statuses, the range and the monotonicity of the progress, and the registry and timers of
  the monitor; none of them depends on the value of the estimate or on which side of a
  threshold a rounded sum falls.
\<close>

subsection \<open>Data: interface \<open>TaskProgress\<close>\<close>

datatype status = Pending | Running | Completed | Failed

datatype level = Info | Warn | Error

record log_entry =
  timestamp :: int
  level :: level
  message :: string

record step_entry =
  step_name :: string
  step_status :: status
  duration :: "int option"

record TaskProgress =
  taskId :: string
  status :: status
  progress :: real
  currentStep :: string
  estimatedTimeRemaining :: "int option"
  steps :: "step_entry list"
  logs :: "log_entry list"

subsection \<open>What one timer tick reads from its environment\<close>

text \<open>
  \<open>now\<close> is the value of \<open>Date.now()\<close> at line 746, \<open>db_ok\<close> tells whether the promise of
  \<open>DatabaseManager.getInstance()\<close> (line 739) resolves, \<open>random_step\<close> and \<open>random_log\<close> are
  the two results of \<open>Math.random()\<close> (lines 762 and 780), \<open>date_started\<close> and \<open>date_update\<close>
  the times of the two \<open>new Date()\<close> (lines 754 and 782).
\<close>

record tick_env =
  now :: int
  db_ok :: bool
  random_step :: real
  random_log :: real
  date_started :: int
  date_update :: int

definition random_ok :: "tick_env \<Rightarrow> bool" where
  \<comment> \<open>\<open>Math.random()\<close> returns a number in [0, 1).\<close>
  "random_ok env \<longleftrightarrow>
     0 \<le> random_step env \<and> random_step env < 1 \<and> 0 \<le> random_log env \<and> random_log env < 1"

subsection \<open>The per-tick update of one record (lines 746 to 795)\<close>

definition elapsed :: "int \<Rightarrow> TaskProgress \<Rightarrow> int" where
  \<comment> \<open>\<open>currentTime - (progress.logs[0]?.timestamp.getTime() || currentTime)\<close>: with no log
      entry the optional chain is undefined, and a time of 0 is falsy; both fall back to
      \<open>currentTime\<close>.\<close>
  "elapsed currentTime p =
     currentTime -
       (case logs p of
          [] \<Rightarrow> currentTime
        | e # _ \<Rightarrow> if timestamp e = 0 then currentTime else timestamp e)"

definition startIfDue :: "tick_env \<Rightarrow> int \<Rightarrow> TaskProgress \<Rightarrow> TaskProgress" where
  \<comment> \<open>lines 750 to 758\<close>
  "startIfDue env el p =
     (if status p = Pending \<and> el > 2000
      then p\<lparr>status := Running,
             currentStep := ''Processing task...'',
             logs := logs p @
               [\<lparr>timestamp = date_started env, level = Info,
                 message = ''Task execution started''\<rparr>]\<rparr>
      else p)"

definition js_round :: "real \<Rightarrow> int" where
  \<comment> \<open>\<open>Math.round\<close>: the nearest integer, a tie going up.\<close>
  "js_round x = \<lfloor>x + 1 / 2\<rfloor>"

definition timeRemaining :: "real \<Rightarrow> int \<Rightarrow> int" where
  \<comment> \<open>lines 790 to 793, reached with \<open>progress > 10\<close> only. With \<open>elapsed = 0\<close> the rate is
      \<open>Infinity\<close> and the quotient 0 in JavaScript; written out, as HOL's division by zero
      is not the program's. The two divisions are exact here and rounded to doubles in
      the code, so the integer the code stores can differ from this one by 1.\<close>
  "timeRemaining pr el =
     (if el = 0 then 0 else js_round ((100 - pr) / (pr / real_of_int el)))"

definition stepLabel :: "real \<Rightarrow> string" where
  \<comment> \<open>lines 765 to 774\<close>
  "stepLabel pr =
     (if pr < 25 then ''Analyzing requirements...''
      else if pr < 50 then ''Executing implementation...''
      else if pr < 75 then ''Running validation...''
      else if pr < 95 then ''Finalizing results...''
      else ''Completing task...'')"

definition runningStep :: "tick_env \<Rightarrow> int \<Rightarrow> TaskProgress \<Rightarrow> TaskProgress \<times> bool" where
  \<comment> \<open>lines 760 to 795; the second component tells whether \<open>task-<id>-completed\<close> was
      emitted (line 776). The listener of that event touches no field of the record, so
      the record can be computed apart from it.\<close>
  "runningStep env el p =
     (if status p = Running then
        let pr = min 100 (progress p + random_step env * 5);
            p1 = p\<lparr>progress := pr, currentStep := stepLabel pr\<rparr>;
            done = \<not> pr < 95;
            p2 = (if done then p1\<lparr>status := Completed\<rparr> else p1);
            p3 = (if random_log env < 1 / 10
                  then p2\<lparr>logs := logs p2 @
                         [\<lparr>timestamp = date_update env, level = Info,
                           message = ''Progress update: '' @ currentStep p2\<rparr>]\<rparr>
                  else p2);
            p4 = (if pr > 10
                  then p3\<lparr>estimatedTimeRemaining := Some (timeRemaining pr el)\<rparr>
                  else p3)
        in (p4, done)
      else (p, False))"

definition updateRecord :: "tick_env \<Rightarrow> TaskProgress \<Rightarrow> TaskProgress \<times> bool" where
  \<comment> \<open>\<open>elapsed\<close> is computed once, before the pending check appends its log entry.\<close>
  "updateRecord env p =
     (let el = elapsed (now env) p in runningStep env el (startIfDue env el p))"

definition tick :: "tick_env \<Rightarrow> TaskProgress \<Rightarrow> TaskProgress" where
  "tick env p = fst (updateRecord env p)"

fun ticks :: "tick_env list \<Rightarrow> TaskProgress \<Rightarrow> TaskProgress" where
  "ticks [] p = p"
| "ticks (env # envs) p = ticks envs (tick env p)"

subsection \<open>The monitor: registry, timers, listeners and console\<close>

datatype error = DbError | RangeError

datatype timer = Interval nat string | Timeout nat string

datatype console_line =
    StartLine string
  | Header string status string
  | Bar nat nat real
  | EtaLine int
  | Activity "log_entry list"
  | Success
  | Failure
  | ErrorLine error
  | StartFailed error
  | StopLine string

text \<open>
  \<open>activeMonitors\<close> and \<open>progressData\<close> are the two maps of the class. \<open>timers\<close> is the timer
  table of the runtime: \<open>Interval ms t\<close> is a live \<open>setInterval\<close> whose callback closes over
  task id \<open>t\<close>, \<open>Timeout ms t\<close> a pending \<open>setTimeout\<close> that will call \<open>stopMonitoring t\<close>;
  handles are numbered by \<open>next_handle\<close>. \<open>listeners t\<close> counts the once-listeners registered
  for the event \<open>task-t-completed\<close>, \<open>emitted\<close> lists the task ids of the \<open>emit\<close> calls, and
  \<open>console\<close> what was printed, oldest first.
\<close>

record monitor =
  activeMonitors :: "string \<rightharpoonup> nat"
  progressData :: "string \<rightharpoonup> TaskProgress"
  timers :: "nat \<rightharpoonup> timer"
  next_handle :: nat
  listeners :: "string \<Rightarrow> nat"
  emitted :: "string list"
  console :: "console_line list"

type_synonym result = "(error \<times> monitor) + monitor"

definition empty_monitor :: monitor where
  "empty_monitor =
     \<lparr>activeMonitors = Map.empty, progressData = Map.empty, timers = Map.empty,
      next_handle = 0, listeners = (\<lambda>_. 0), emitted = [], console = []\<rparr>"

definition print :: "console_line list \<Rightarrow> monitor \<Rightarrow> monitor" where
  "print ls m = m\<lparr>console := console m @ ls\<rparr>"

definition stopMonitoring :: "string \<Rightarrow> monitor \<Rightarrow> monitor" where
  \<comment> \<open>lines 872 to 879; a timer object is truthy, so the test is on presence only\<close>
  "stopMonitoring t m =
     (case activeMonitors m t of
        None \<Rightarrow> m
      | Some h \<Rightarrow>
          print [StopLine t]
            (m\<lparr>timers := (timers m)(h := None),
               activeMonitors := (activeMonitors m)(t := None)\<rparr>))"

definition fresh :: "string \<Rightarrow> TaskProgress" where
  \<comment> \<open>lines 710 to 717\<close>
  "fresh t =
     \<lparr>taskId = t, status = Pending, progress = 0, currentStep = ''Initializing...'',
      estimatedTimeRemaining = None, steps = [], logs = []\<rparr>"

definition startMonitoring :: "string \<Rightarrow> monitor \<Rightarrow> result" where
  \<comment> \<open>lines 700 to 736; the body has no \<open>throw\<close> and no \<open>await\<close>\<close>
  "startMonitoring t m =
     (if activeMonitors m t \<noteq> None then Inr m
      else
        let h = next_handle m;
            m1 = print [StartLine t] m;
            m2 = m1\<lparr>progressData := (progressData m1)(t \<mapsto> fresh t)\<rparr>;
            m3 = m2\<lparr>timers := (timers m2)(h \<mapsto> Interval 1000 t), next_handle := Suc h\<rparr>;
            m4 = m3\<lparr>activeMonitors := (activeMonitors m3)(t \<mapsto> h)\<rparr>
        in Inr (m4\<lparr>listeners := (listeners m4)(t := Suc (listeners m4 t))\<rparr>))"

definition startRealTimeMonitoring :: "string \<Rightarrow> monitor \<Rightarrow> monitor" where
  \<comment> \<open>lines 897 to 903\<close>
  "startRealTimeMonitoring t m =
     (case startMonitoring t m of
        Inl (e, m1) \<Rightarrow> print [StartFailed e] m1
      | Inr m1 \<Rightarrow> m1)"

definition emit :: "string \<Rightarrow> monitor \<Rightarrow> monitor" where
  \<comment> \<open>\<open>this.emit(`task-${taskId}-completed`)\<close>: every once-listener of the event is removed
      and called, synchronously; each of them is \<open>() => this.stopMonitoring(taskId)\<close>
      (lines 733 to 735).\<close>
  "emit t m =
     (let n = listeners m t;
          m1 = m\<lparr>emitted := emitted m @ [t], listeners := (listeners m)(t := 0)\<rparr>
      in (stopMonitoring t ^^ n) m1)"

definition updateTaskProgress :: "string \<Rightarrow> tick_env \<Rightarrow> monitor \<Rightarrow> result" where
  \<comment> \<open>lines 738 to 798\<close>
  "updateTaskProgress t env m =
     (if \<not> db_ok env then Inl (DbError, m)
      else
        case progressData m t of
          None \<Rightarrow> Inr m
        | Some p \<Rightarrow>
            let (p', done) = updateRecord env p;
                m1 = (if done then emit t m else m)
            in Inr (m1\<lparr>progressData := (progressData m1)(t \<mapsto> p')\<rparr>))"

definition setTimeout :: "nat \<Rightarrow> string \<Rightarrow> monitor \<Rightarrow> monitor" where
  "setTimeout ms t m =
     m\<lparr>timers := (timers m)(next_handle m \<mapsto> Timeout ms t),
       next_handle := Suc (next_handle m)\<rparr>"

definition displayProgress :: "string \<Rightarrow> monitor \<Rightarrow> result" where
  \<comment> \<open>lines 800 to 870; \<open>String.prototype.repeat\<close> throws a RangeError on a negative count\<close>
  "displayProgress t m =
     (case progressData m t of
        None \<Rightarrow> Inr m
      | Some p \<Rightarrow>
          let m1 = print [Header t (status p) (currentStep p)] m;
              filledLength = js_round (progress p / 100 * 40);
              emptyLength = 40 - filledLength
          in if filledLength < 0 \<or> emptyLength < 0 then Inl (RangeError, m1)
             else
               let m2 = print [Bar (nat filledLength) (nat emptyLength) (progress p)] m1;
                   m3 = (case estimatedTimeRemaining p of
                           None \<Rightarrow> m2
                         | Some e \<Rightarrow>
                             if e \<noteq> 0 \<and> status p = Running then print [EtaLine e] m2
                             else m2);
                   m4 = print [Activity (drop (length (logs p) - 5) (logs p))] m3
               in if status p = Completed then Inr (setTimeout 3000 t (print [Success] m4))
                  else if status p = Failed then Inr (setTimeout 3000 t (print [Failure] m4))
                  else Inr m4)"

definition intervalCallback :: "string \<Rightarrow> tick_env \<Rightarrow> monitor \<Rightarrow> monitor" where
  \<comment> \<open>lines 720 to 728: the callback of \<open>setInterval\<close>\<close>
  "intervalCallback t env m =
     (case updateTaskProgress t env m of
        Inl (e, m1) \<Rightarrow> stopMonitoring t (print [ErrorLine e] m1)
      | Inr m1 \<Rightarrow>
          (case displayProgress t m1 of
             Inl (e, m2) \<Rightarrow> stopMonitoring t (print [ErrorLine e] m2)
           | Inr m2 \<Rightarrow> m2))"

subsection \<open>The event loop\<close>

text \<open>
  The monitor changes when \<open>startRealTimeMonitoring\<close> is called and when a timer of the
  table fires; a cleared timer never fires, and a timeout is removed from the table when
  it fires. \<open>fire\<close> is the firing of a timer together with the whole of its callback.
  The interval callback is suspended once, at the \<open>await\<close> of
  \<open>DatabaseManager.getInstance()\<close> (line 739), before it has read or written anything,
  and \<open>setInterval\<close> does not wait for it: \<open>fire\<close> is the case in which the callback
  resumes before any other event. A callback that is still suspended when its timer is
  cleared runs its body all the same; no property below is about that case.
\<close>

datatype event = Start string | Fire nat tick_env

definition fire :: "nat \<Rightarrow> tick_env \<Rightarrow> monitor \<Rightarrow> monitor" where
  "fire h env m =
     (case timers m h of
        None \<Rightarrow> m
      | Some (Interval ms t) \<Rightarrow> intervalCallback t env m
      | Some (Timeout ms t) \<Rightarrow> stopMonitoring t (m\<lparr>timers := (timers m)(h := None)\<rparr>))"

fun step :: "event \<Rightarrow> monitor \<Rightarrow> monitor" where
  "step (Start t) m = startRealTimeMonitoring t m"
| "step (Fire h env) m = fire h env m"

fun run :: "event list \<Rightarrow> monitor \<Rightarrow> monitor" where
  "run [] m = m"
| "run (e # es) m = run es (step e m)"

subsection \<open>Notions the properties are stated with\<close>

fun forward :: "status \<Rightarrow> status \<Rightarrow> bool" where
  \<comment> \<open>reachability along pending, running, then completed or failed\<close>
  "forward Pending s = True"
| "forward Running s = (s \<noteq> Pending)"
| "forward Completed s = (s = Completed)"
| "forward Failed s = (s = Failed)"

definition terminal :: "status \<Rightarrow> bool" where
  "terminal s \<longleftrightarrow> s = Completed \<or> s = Failed"

definition runs_now :: "tick_env \<Rightarrow> TaskProgress \<Rightarrow> bool" where
  \<comment> \<open>the record enters the block of line 760: it is running, or the check of line 750
      has just started it\<close>
  "runs_now env p \<longleftrightarrow>
     status p = Running \<or> (status p = Pending \<and> elapsed (now env) p > 2000)"

definition monitor_inv :: "monitor \<Rightarrow> bool" where
  \<comment> \<open>the registry and the timer table agree: a registered task has its live interval,
      every live interval is the registered one of its task, that task has a completion
      listener and a record that is not terminal, and handles not yet given are free\<close>
  "monitor_inv m \<longleftrightarrow>
     (\<forall>t h. activeMonitors m t = Some h \<longrightarrow> timers m h = Some (Interval 1000 t)) \<and>
     (\<forall>h ms t. timers m h = Some (Interval ms t) \<longrightarrow>
        activeMonitors m t = Some h \<and> 0 < listeners m t \<and>
        (\<exists>p. progressData m t = Some p \<and> \<not> terminal (status p))) \<and>
     (\<forall>h. next_handle m \<le> h \<longrightarrow> timers m h = None)"

definition bar_ok :: "TaskProgress \<Rightarrow> bool" where
  \<comment> \<open>both counts passed to \<open>repeat\<close> (lines 825 to 830) are non-negative\<close>
  "bar_ok p \<longleftrightarrow>
     0 \<le> js_round (progress p / 100 * 40) \<and> js_round (progress p / 100 * 40) \<le> 40"

definition screen_lines :: "string \<Rightarrow> TaskProgress \<Rightarrow> console_line list" where
  \<comment> \<open>what \<open>displayProgress\<close> prints for a record whose bar can be drawn\<close>
  "screen_lines t p =
     [Header t (status p) (currentStep p),
      Bar (nat (js_round (progress p / 100 * 40))) (nat (40 - js_round (progress p / 100 * 40)))
        (progress p)] @
     (case estimatedTimeRemaining p of
        None \<Rightarrow> []
      | Some e \<Rightarrow> if e \<noteq> 0 \<and> status p = Running then [EtaLine e] else []) @
     [Activity (drop (length (logs p) - 5) (logs p))] @
     (if status p = Completed then [Success] else if status p = Failed then [Failure] else [])"

subsection \<open>Concrete inputs\<close>

definition tick_at :: "int \<Rightarrow> real \<Rightarrow> tick_env" where
  "tick_at n r =
     \<lparr>now = n, db_ok = True, random_step = r, random_log = 1 / 2,
      date_started = n, date_update = n\<rparr>"

definition running_at :: "real \<Rightarrow> TaskProgress" where
  "running_at x =
     \<lparr>taskId = ''t1'', status = Running, progress = x,
      currentStep = ''Processing task...'', estimatedTimeRemaining = None, steps = [],
      logs = [\<lparr>timestamp = 1000, level = Info, message = ''Task execution started''\<rparr>]\<rparr>"

definition db_down_at :: "int \<Rightarrow> tick_env" where
  "db_down_at n =
     \<lparr>now = n, db_ok = False, random_step = 1 / 2, random_log = 1 / 2,
      date_started = n, date_update = n\<rparr>"

definition watching :: "TaskProgress \<Rightarrow> monitor" where
  \<comment> \<open>the monitor after \<open>startMonitoring("t1")\<close>, with \<open>p\<close> as the record of \<open>t1\<close>\<close>
  "watching p =
     \<lparr>activeMonitors = [''t1'' \<mapsto> 0], progressData = [''t1'' \<mapsto> p],
      timers = [0 \<mapsto> Interval 1000 ''t1''], next_handle = 1,
      listeners = (\<lambda>_. 0)(''t1'' := 1), emitted = [], console = [StartLine ''t1'']\<rparr>"

section \<open>Properties of the per-tick update\<close>

subsection \<open>What a tick does to each field\<close>

lemma status_startIfDue:
  "status (startIfDue env (elapsed (now env) p) p) =
     (if runs_now env p then Running else status p)"
  by (auto simp: startIfDue_def runs_now_def)

lemma progress_startIfDue [simp]: "progress (startIfDue env el p) = progress p"
  by (simp add: startIfDue_def)

lemma progress_tick:
  "progress (tick env p) =
     (if runs_now env p then min 100 (progress p + random_step env * 5) else progress p)"
  by (auto simp: tick_def updateRecord_def runningStep_def Let_def status_startIfDue
      runs_now_def)

lemma status_tick:
  "status (tick env p) =
     (if runs_now env p
      then (if progress (tick env p) < 95 then Running else Completed)
      else status p)"
  by (auto simp: tick_def updateRecord_def runningStep_def Let_def status_startIfDue
      runs_now_def)

lemma emitted_tick:
  "snd (updateRecord env p) = (runs_now env p \<and> \<not> progress (tick env p) < 95)"
  by (auto simp: tick_def updateRecord_def runningStep_def Let_def status_startIfDue
      runs_now_def)

lemma tick_pending_no_log:
  "status p = Pending \<Longrightarrow> logs p = [] \<Longrightarrow> updateRecord env p = (p, False)"
  by (simp add: updateRecord_def runningStep_def startIfDue_def elapsed_def)

lemma ticks_append: "ticks (es1 @ es2) p = ticks es2 (ticks es1 p)"
  by (induction es1 arbitrary: p) auto

subsection \<open>C1: a pending task is started once the threshold has passed\<close>

text \<open>
  C1 says that a monitored pending task becomes running, with an info entry in its log,
  once the elapsed-time threshold has passed. The update measures the elapsed time from
  the first log entry, and a pending task has none: its elapsed time is 0 at every tick,
  the test \<open>elapsed > 2000\<close> of line 750 never holds, and the record that
  \<open>startMonitoring\<close> creates is a fixed point of the update, whatever the clock and the
  random numbers are.
\<close>

theorem fresh_task_stays_pending: "ticks envs (fresh t) = fresh t"
  by (induction envs) (simp_all add: tick_def tick_pending_no_log fresh_def)

text \<open>The same on the monitor: task \<open>t1\<close> is started and its timer fires five times, the
  last time an hour later.\<close>

lemma started_task_stays_pending:
  "progressData
     (run [Start ''t1'', Fire 0 (tick_at 1000 (1 / 2)), Fire 0 (tick_at 2000 (1 / 2)),
           Fire 0 (tick_at 3000 (1 / 2)), Fire 0 (tick_at 4000 (1 / 2)),
           Fire 0 (tick_at 3600000 (1 / 2))] empty_monitor) ''t1''
   = Some (fresh ''t1'')"
  by code_simp

subsection \<open>C6: the status only moves forward\<close>

lemma forward_trans: "forward a b \<Longrightarrow> forward b c \<Longrightarrow> forward a c"
  by (cases a; cases b; cases c) auto

lemma forward_tick: "forward (status p) (status (tick env p))"
  by (cases "status p") (auto simp: status_tick runs_now_def)

lemma forward_ticks: "forward (status p) (status (ticks envs p))"
proof (induction envs arbitrary: p)
  case Nil
  show ?case by (cases "status p") auto
next
  case (Cons env envs)
  have "forward (status p) (status (tick env p))" by (rule forward_tick)
  moreover have "forward (status (tick env p)) (status (ticks envs (tick env p)))"
    by (rule Cons.IH)
  ultimately show ?case by (auto intro: forward_trans)
qed

text \<open>
  C6: along every sequence of per-tick updates of a record, the status after any prefix
  of the sequence reaches the status after the whole sequence along pending, running,
  then completed or failed. By the definition of \<open>forward\<close>, a completed record stays
  completed and a failed one failed, so no sequence leads from completed to running.
\<close>

theorem status_never_regresses:
  "forward (status (ticks es1 p)) (status (ticks (es1 @ es2) p))"
  by (simp add: ticks_append forward_ticks)

subsection \<open>C7: the progress stays in range and never decreases\<close>

text \<open>
  C7: with the random numbers in [0, 1), as \<open>Math.random()\<close> gives them, a record whose
  progress is in [0, 100] (a new one has 0) keeps it there through every sequence of
  ticks, and the next tick never lowers it, in the running status as in any other.
\<close>

theorem progress_in_range:
  assumes "\<forall>env \<in> set envs. random_ok env" and "random_ok env'"
    and "0 \<le> progress p" and "progress p \<le> 100"
  shows "0 \<le> progress (ticks envs p) \<and> progress (ticks envs p) \<le> 100 \<and>
         progress (ticks envs p) \<le> progress (ticks (envs @ [env']) p)"
proof -
  have range: "0 \<le> progress (ticks envs p) \<and> progress (ticks envs p) \<le> 100"
    using assms(1,3,4)
  proof (induction envs arbitrary: p)
    case Nil
    then show ?case by simp
  next
    case (Cons env envs)
    have "0 \<le> progress (tick env p) \<and> progress (tick env p) \<le> 100"
      using Cons.prems by (auto simp: progress_tick random_ok_def)
    with Cons.IH [of "tick env p"] Cons.prems(1) show ?case by simp
  qed
  have "progress q \<le> progress (tick env' q)" if "progress q \<le> 100" for q
    using that assms(2) by (auto simp: progress_tick random_ok_def)
  with range show ?thesis by (simp add: ticks_append)
qed

theorem progress_in_range_witness:
  "progress (ticks [tick_at 4000 (1 / 2), tick_at 5000 (4 / 5)] (running_at 80)) = 173 / 2 \<and>
   progress (ticks ([tick_at 4000 (1 / 2), tick_at 5000 (4 / 5)] @ [tick_at 6000 (1 / 5)])
               (running_at 80)) = 175 / 2 \<and>
   0 \<le> progress (ticks [tick_at 4000 (1 / 2), tick_at 5000 (4 / 5)] (running_at 80)) \<and>
   progress (ticks [tick_at 4000 (1 / 2), tick_at 5000 (4 / 5)] (running_at 80)) \<le> 100 \<and>
   progress (ticks [tick_at 4000 (1 / 2), tick_at 5000 (4 / 5)] (running_at 80))
     \<le> progress (ticks ([tick_at 4000 (1 / 2), tick_at 5000 (4 / 5)] @ [tick_at 6000 (1 / 5)])
                   (running_at 80))"
proof -
  let ?es = "[tick_at 4000 (1 / 2), tick_at 5000 (4 / 5)]"
  have a: "\<forall>env \<in> set ?es. random_ok env" by (simp add: random_ok_def tick_at_def)
  have b: "random_ok (tick_at 6000 (1 / 5))" by (simp add: random_ok_def tick_at_def)
  have c: "0 \<le> progress (running_at 80)" "progress (running_at 80) \<le> 100"
    by (simp_all add: running_at_def)
  have p2: "progress (ticks ?es (running_at 80)) = 173 / 2"
    by code_simp
  have p3: "progress (ticks (?es @ [tick_at 6000 (1 / 5)]) (running_at 80)) = 175 / 2"
    by code_simp
  from progress_in_range [OF a b c] p2 p3 show ?thesis by simp
qed

section \<open>Properties of the monitor\<close>

subsection \<open>The fields after each operation\<close>

lemma stopMonitoring_fields:
  "progressData (stopMonitoring t m) = progressData m"
  "listeners (stopMonitoring t m) = listeners m"
  "emitted (stopMonitoring t m) = emitted m"
  "next_handle (stopMonitoring t m) = next_handle m"
  "activeMonitors (stopMonitoring t m) = (activeMonitors m)(t := None)"
  "timers (stopMonitoring t m) =
     (case activeMonitors m t of None \<Rightarrow> timers m | Some h \<Rightarrow> (timers m)(h := None))"
  "console (stopMonitoring t m) =
     console m @ (case activeMonitors m t of None \<Rightarrow> [] | Some h \<Rightarrow> [StopLine t])"
  by (auto simp: stopMonitoring_def print_def split: option.splits)

lemma print_fields:
  "progressData (print ls m) = progressData m"
  "listeners (print ls m) = listeners m"
  "emitted (print ls m) = emitted m"
  "next_handle (print ls m) = next_handle m"
  "activeMonitors (print ls m) = activeMonitors m"
  "timers (print ls m) = timers m"
  "console (print ls m) = console m @ ls"
  by (simp_all add: print_def)

lemma print_print: "print ls2 (print ls1 m) = print (ls1 @ ls2) m"
  by (simp add: print_def)

lemma setTimeout_fields:
  "progressData (setTimeout ms t m) = progressData m"
  "listeners (setTimeout ms t m) = listeners m"
  "emitted (setTimeout ms t m) = emitted m"
  "next_handle (setTimeout ms t m) = Suc (next_handle m)"
  "activeMonitors (setTimeout ms t m) = activeMonitors m"
  "timers (setTimeout ms t m) = (timers m)(next_handle m \<mapsto> Timeout ms t)"
  "console (setTimeout ms t m) = console m"
  by (simp_all add: setTimeout_def)

lemma stopMonitoring_inactive: "activeMonitors m t = None \<Longrightarrow> stopMonitoring t m = m"
  by (simp add: stopMonitoring_def)

lemma stopMonitoring_twice: "stopMonitoring t (stopMonitoring t m) = stopMonitoring t m"
  by (rule stopMonitoring_inactive) (simp add: stopMonitoring_fields)

lemma stopMonitoring_funpow: "0 < n \<Longrightarrow> (stopMonitoring t ^^ n) m = stopMonitoring t m"
proof (induction n)
  case 0
  then show ?case by simp
next
  case (Suc n)
  show ?case
  proof (cases n)
    case 0
    then show ?thesis by simp
  next
    case (Suc k)
    with Suc.IH have "(stopMonitoring t ^^ n) m = stopMonitoring t m" by simp
    then show ?thesis by (simp add: stopMonitoring_twice)
  qed
qed

lemma emit_listening:
  "0 < listeners m t \<Longrightarrow>
   emit t m = stopMonitoring t (m\<lparr>emitted := emitted m @ [t], listeners := (listeners m)(t := 0)\<rparr>)"
  by (simp add: emit_def Let_def stopMonitoring_funpow)

lemma emit_unheard:
  "listeners m t = 0 \<Longrightarrow>
   emit t m = m\<lparr>emitted := emitted m @ [t], listeners := (listeners m)(t := 0)\<rparr>"
  by (simp add: emit_def Let_def)

lemma emit_fields:
  "progressData (emit t m) = progressData m"
  "listeners (emit t m) = (listeners m)(t := 0)"
  "emitted (emit t m) = emitted m @ [t]"
  "next_handle (emit t m) = next_handle m"
  "activeMonitors (emit t m) =
     (if 0 < listeners m t then (activeMonitors m)(t := None) else activeMonitors m)"
  "timers (emit t m) =
     (case activeMonitors m t of
        None \<Rightarrow> timers m
      | Some h \<Rightarrow> if 0 < listeners m t then (timers m)(h := None) else timers m)"
  "console (emit t m) =
     console m @
       (case activeMonitors m t of
          None \<Rightarrow> []
        | Some h \<Rightarrow> if 0 < listeners m t then [StopLine t] else [])"
  by (cases "listeners m t = 0";
      simp add: emit_listening emit_unheard stopMonitoring_fields split: option.splits)+

lemma startMonitoring_active: "activeMonitors m t = Some h \<Longrightarrow> startMonitoring t m = Inr m"
  by (simp add: startMonitoring_def)

lemma startMonitoring_inactive:
  "activeMonitors m t = None \<Longrightarrow>
   startMonitoring t m =
     Inr (m\<lparr>console := console m @ [StartLine t],
            progressData := (progressData m)(t \<mapsto> fresh t),
            timers := (timers m)(next_handle m \<mapsto> Interval 1000 t),
            next_handle := Suc (next_handle m),
            activeMonitors := (activeMonitors m)(t \<mapsto> next_handle m),
            listeners := (listeners m)(t := Suc (listeners m t))\<rparr>)"
  by (simp add: startMonitoring_def Let_def print_def)

lemma startMonitoring_returns: "\<exists>m'. startMonitoring t m = Inr m'"
  by (simp add: startMonitoring_def Let_def)


subsection \<open>The invariant holds in every state the monitor reaches\<close>

lemma inv_registered:
  "monitor_inv m \<Longrightarrow> activeMonitors m t = Some h \<Longrightarrow> timers m h = Some (Interval 1000 t)"
  unfolding monitor_inv_def by blast

lemma inv_live:
  "monitor_inv m \<Longrightarrow> timers m h = Some (Interval ms t) \<Longrightarrow>
   activeMonitors m t = Some h \<and> 0 < listeners m t \<and>
   (\<exists>p. progressData m t = Some p \<and> \<not> terminal (status p))"
  unfolding monitor_inv_def by blast

lemma inv_unused: "monitor_inv m \<Longrightarrow> next_handle m \<le> h \<Longrightarrow> timers m h = None"
  unfolding monitor_inv_def by blast

lemma monitor_invI:
  assumes "\<And>t h. activeMonitors m t = Some h \<Longrightarrow> timers m h = Some (Interval 1000 t)"
    and "\<And>h ms t. timers m h = Some (Interval ms t) \<Longrightarrow>
           activeMonitors m t = Some h \<and> 0 < listeners m t \<and>
           (\<exists>p. progressData m t = Some p \<and> \<not> terminal (status p))"
    and "\<And>h. next_handle m \<le> h \<Longrightarrow> timers m h = None"
  shows "monitor_inv m"
  unfolding monitor_inv_def using assms by blast

lemma inv_print [simp]: "monitor_inv (print ls m) = monitor_inv m"
  by (simp add: monitor_inv_def print_fields)

lemma inv_empty: "monitor_inv empty_monitor"
  by (rule monitor_invI) (simp_all add: empty_monitor_def)

lemma inv_stopMonitoring:
  assumes inv: "monitor_inv m"
  shows "monitor_inv (stopMonitoring t m)"
proof (cases "activeMonitors m t")
  case None
  then show ?thesis using inv by (simp add: stopMonitoring_inactive)
next
  case (Some h0)
  have h0: "timers m h0 = Some (Interval 1000 t)" by (rule inv_registered [OF inv Some])
  show ?thesis
  proof (rule monitor_invI)
    fix t' h
    assume "activeMonitors (stopMonitoring t m) t' = Some h"
    then have a: "t' \<noteq> t" "activeMonitors m t' = Some h"
      by (auto simp: stopMonitoring_fields split: if_splits)
    then have b: "timers m h = Some (Interval 1000 t')" using inv by (simp add: inv_registered)
    with h0 a have "h \<noteq> h0" by auto
    with b Some show "timers (stopMonitoring t m) h = Some (Interval 1000 t')"
      by (simp add: stopMonitoring_fields)
  next
    fix h ms t'
    assume "timers (stopMonitoring t m) h = Some (Interval ms t')"
    then have a: "h \<noteq> h0" "timers m h = Some (Interval ms t')"
      using Some by (auto simp: stopMonitoring_fields split: if_splits)
    from inv_live [OF inv a(2)] have b: "activeMonitors m t' = Some h" "0 < listeners m t'"
      "\<exists>p. progressData m t' = Some p \<and> \<not> terminal (status p)" by auto
    from b(1) a(1) Some have "t' \<noteq> t" by auto
    with b show "activeMonitors (stopMonitoring t m) t' = Some h \<and>
        0 < listeners (stopMonitoring t m) t' \<and>
        (\<exists>p. progressData (stopMonitoring t m) t' = Some p \<and> \<not> terminal (status p))"
      by (simp add: stopMonitoring_fields)
  next
    fix h
    assume "next_handle (stopMonitoring t m) \<le> h"
    then have "timers m h = None" using inv by (simp add: stopMonitoring_fields inv_unused)
    then show "timers (stopMonitoring t m) h = None"
      by (simp add: stopMonitoring_fields split: option.splits)
  qed
qed

lemma inv_startMonitoring:
  assumes inv: "monitor_inv m" and st: "startMonitoring t m = Inr m'"
  shows "monitor_inv m'"
proof (cases "activeMonitors m t")
  case (Some h)
  with assms show ?thesis by (simp add: startMonitoring_active)
next
  case None
  have unused: "timers m (next_handle m) = None"
    using inv by (simp add: inv_unused)
  have m': "m' = m\<lparr>console := console m @ [StartLine t],
                   progressData := (progressData m)(t \<mapsto> fresh t),
                   timers := (timers m)(next_handle m \<mapsto> Interval 1000 t),
                   next_handle := Suc (next_handle m),
                   activeMonitors := (activeMonitors m)(t \<mapsto> next_handle m),
                   listeners := (listeners m)(t := Suc (listeners m t))\<rparr>"
    using st None by (simp add: startMonitoring_inactive)
  show ?thesis
  proof (rule monitor_invI)
    fix t' h
    assume a: "activeMonitors m' t' = Some h"
    show "timers m' h = Some (Interval 1000 t')"
    proof (cases "t' = t")
      case True
      with a show ?thesis by (simp add: m')
    next
      case False
      with a have b: "activeMonitors m t' = Some h" by (simp add: m')
      then have c: "timers m h = Some (Interval 1000 t')" using inv by (simp add: inv_registered)
      with unused have "h \<noteq> next_handle m" by auto
      with c show ?thesis by (simp add: m')
    qed
  next
    fix h ms t'
    assume a: "timers m' h = Some (Interval ms t')"
    show "activeMonitors m' t' = Some h \<and> 0 < listeners m' t' \<and>
          (\<exists>p. progressData m' t' = Some p \<and> \<not> terminal (status p))"
    proof (cases "h = next_handle m")
      case True
      with a have "t' = t" by (simp add: m')
      with True show ?thesis by (simp add: m' fresh_def terminal_def)
    next
      case False
      with a have "timers m h = Some (Interval ms t')" by (simp add: m')
      from inv_live [OF inv this] have b: "activeMonitors m t' = Some h" "0 < listeners m t'"
        "\<exists>p. progressData m t' = Some p \<and> \<not> terminal (status p)" by auto
      with None have "t' \<noteq> t" by auto
      with b show ?thesis by (simp add: m')
    qed
  next
    fix h
    assume "next_handle m' \<le> h"
    then have "next_handle m \<le> h" "h \<noteq> next_handle m" by (auto simp: m')
    then show "timers m' h = None" using inv by (simp add: m' inv_unused)
  qed
qed

lemma inv_emit:
  assumes inv: "monitor_inv m"
  shows "monitor_inv (emit t m)"
proof (cases "listeners m t = 0")
  case True
  have idle: "timers m h \<noteq> Some (Interval ms t)" for h ms
    using inv_live [OF inv, of h ms t] True by auto
  show ?thesis
  proof (rule monitor_invI)
    fix t' h
    assume "activeMonitors (emit t m) t' = Some h"
    then show "timers (emit t m) h = Some (Interval 1000 t')"
      using True inv by (simp add: emit_fields inv_registered split: option.splits)
  next
    fix h ms t'
    assume a: "timers (emit t m) h = Some (Interval ms t')"
    then have b: "timers m h = Some (Interval ms t')"
      using True by (simp add: emit_fields split: option.splits)
    with idle have "t' \<noteq> t" by auto
    with inv_live [OF inv b] True
    show "activeMonitors (emit t m) t' = Some h \<and> 0 < listeners (emit t m) t' \<and>
          (\<exists>p. progressData (emit t m) t' = Some p \<and> \<not> terminal (status p))"
      by (simp add: emit_fields)
  next
    fix h
    assume "next_handle (emit t m) \<le> h"
    then show "timers (emit t m) h = None"
      using True inv by (simp add: emit_fields inv_unused split: option.splits)
  qed
next
  case False
  let ?m1 = "m\<lparr>emitted := emitted m @ [t], listeners := (listeners m)(t := 0)\<rparr>"
  have e: "emit t m = stopMonitoring t ?m1" using False by (simp add: emit_listening)
  have s: "monitor_inv (stopMonitoring t m)" by (rule inv_stopMonitoring [OF inv])
  have idle: "timers (stopMonitoring t m) h \<noteq> Some (Interval ms t)" for h ms
    using inv_live [OF s, of h ms t] by (auto simp: stopMonitoring_fields)
  have f: "activeMonitors (emit t m) = activeMonitors (stopMonitoring t m)"
    "timers (emit t m) = timers (stopMonitoring t m)"
    "progressData (emit t m) = progressData (stopMonitoring t m)"
    "next_handle (emit t m) = next_handle (stopMonitoring t m)"
    "listeners (emit t m) = (listeners (stopMonitoring t m))(t := 0)"
    by (simp_all add: e stopMonitoring_fields split: option.splits)
  show ?thesis
  proof (rule monitor_invI)
    fix t' h
    assume "activeMonitors (emit t m) t' = Some h"
    then show "timers (emit t m) h = Some (Interval 1000 t')"
      using s by (simp add: f inv_registered)
  next
    fix h ms t'
    assume a: "timers (emit t m) h = Some (Interval ms t')"
    then have b: "timers (stopMonitoring t m) h = Some (Interval ms t')" by (simp add: f)
    with idle have "t' \<noteq> t" by auto
    with inv_live [OF s b]
    show "activeMonitors (emit t m) t' = Some h \<and> 0 < listeners (emit t m) t' \<and>
          (\<exists>p. progressData (emit t m) t' = Some p \<and> \<not> terminal (status p))"
      by (simp add: f)
  next
    fix h
    assume "next_handle (emit t m) \<le> h"
    then show "timers (emit t m) h = None"
      using s by (simp add: f inv_unused)
  qed
qed

lemma idle_after_emit:
  assumes inv: "monitor_inv m"
  shows "timers (emit t m) h \<noteq> Some (Interval ms t)"
proof
  assume a: "timers (emit t m) h = Some (Interval ms t)"
  from inv_live [OF inv_emit [OF inv] a] show False by (simp add: emit_fields)
qed

lemma inv_setTimeout:
  assumes inv: "monitor_inv m"
  shows "monitor_inv (setTimeout ms t m)"
proof (rule monitor_invI)
  have unused: "timers m (next_handle m) = None" using inv by (simp add: inv_unused)
  {
    fix t' h
    assume "activeMonitors (setTimeout ms t m) t' = Some h"
    then have "timers m h = Some (Interval 1000 t')" using inv
      by (simp add: setTimeout_fields inv_registered)
    moreover from this unused have "h \<noteq> next_handle m" by auto
    ultimately show "timers (setTimeout ms t m) h = Some (Interval 1000 t')"
      by (simp add: setTimeout_fields)
  next
    fix h ms' t'
    assume "timers (setTimeout ms t m) h = Some (Interval ms' t')"
    then have "timers m h = Some (Interval ms' t')"
      by (simp add: setTimeout_fields split: if_splits)
    from inv_live [OF inv this]
    show "activeMonitors (setTimeout ms t m) t' = Some h \<and>
          0 < listeners (setTimeout ms t m) t' \<and>
          (\<exists>p. progressData (setTimeout ms t m) t' = Some p \<and> \<not> terminal (status p))"
      by (simp add: setTimeout_fields)
  next
    fix h
    assume "next_handle (setTimeout ms t m) \<le> h"
    then have "next_handle m \<le> h" "h \<noteq> next_handle m" by (auto simp: setTimeout_fields)
    then show "timers (setTimeout ms t m) h = None"
      using inv by (simp add: setTimeout_fields inv_unused)
  }
qed

lemma inv_store:
  assumes inv: "monitor_inv m"
    and ok: "\<not> terminal (status p) \<or> (\<forall>h ms. timers m h \<noteq> Some (Interval ms t))"
  shows "monitor_inv (m\<lparr>progressData := (progressData m)(t \<mapsto> p)\<rparr>)"
proof (rule monitor_invI)
  fix t' h
  assume "activeMonitors (m\<lparr>progressData := (progressData m)(t \<mapsto> p)\<rparr>) t' = Some h"
  then show "timers (m\<lparr>progressData := (progressData m)(t \<mapsto> p)\<rparr>) h = Some (Interval 1000 t')"
    using inv by (simp add: inv_registered)
next
  fix h ms t'
  assume "timers (m\<lparr>progressData := (progressData m)(t \<mapsto> p)\<rparr>) h = Some (Interval ms t')"
  then have a: "timers m h = Some (Interval ms t')" by simp
  from inv_live [OF inv a] a ok
  show "activeMonitors (m\<lparr>progressData := (progressData m)(t \<mapsto> p)\<rparr>) t' = Some h \<and>
        0 < listeners (m\<lparr>progressData := (progressData m)(t \<mapsto> p)\<rparr>) t' \<and>
        (\<exists>q. progressData (m\<lparr>progressData := (progressData m)(t \<mapsto> p)\<rparr>) t' = Some q \<and>
             \<not> terminal (status q))"
    by auto
next
  fix h
  assume "next_handle (m\<lparr>progressData := (progressData m)(t \<mapsto> p)\<rparr>) \<le> h"
  then show "timers (m\<lparr>progressData := (progressData m)(t \<mapsto> p)\<rparr>) h = None"
    using inv by (simp add: inv_unused)
qed


subsection \<open>The timer callback, case by case\<close>

lemma update_db_down: "\<not> db_ok env \<Longrightarrow> updateTaskProgress t env m = Inl (DbError, m)"
  by (simp add: updateTaskProgress_def)

lemma update_unknown:
  "db_ok env \<Longrightarrow> progressData m t = None \<Longrightarrow> updateTaskProgress t env m = Inr m"
  by (simp add: updateTaskProgress_def)

lemma update_known:
  "db_ok env \<Longrightarrow> progressData m t = Some p \<Longrightarrow>
   updateTaskProgress t env m =
     Inr (if snd (updateRecord env p)
          then (emit t m)\<lparr>progressData := (progressData m)(t \<mapsto> tick env p)\<rparr>
          else m\<lparr>progressData := (progressData m)(t \<mapsto> tick env p)\<rparr>)"
  by (simp add: updateTaskProgress_def tick_def emit_fields split: prod.splits)

lemma terminal_tick:
  "\<not> terminal (status p) \<Longrightarrow> \<not> snd (updateRecord env p) \<Longrightarrow> \<not> terminal (status (tick env p))"
  by (auto simp: terminal_def status_tick emitted_tick runs_now_def)

lemma inv_update:
  assumes inv: "monitor_inv m" and u: "updateTaskProgress t env m = Inr m1"
  shows "monitor_inv m1"
proof (cases "progressData m t")
  case None
  with u inv show ?thesis by (cases "db_ok env") (simp_all add: update_unknown update_db_down)
next
  case (Some p)
  have db: "db_ok env" using u by (cases "db_ok env") (simp_all add: update_db_down)
  show ?thesis
  proof (cases "snd (updateRecord env p)")
    case True
    have m1: "m1 = (emit t m)\<lparr>progressData := (progressData (emit t m))(t \<mapsto> tick env p)\<rparr>"
      using u db Some True by (simp add: update_known emit_fields)
    show ?thesis unfolding m1
      by (rule inv_store [OF inv_emit [OF inv]]) (simp add: idle_after_emit [OF inv])
  next
    case False
    have m1: "m1 = m\<lparr>progressData := (progressData m)(t \<mapsto> tick env p)\<rparr>"
      using u db Some False by (simp add: update_known)
    have "\<not> terminal (status (tick env p)) \<or> (\<forall>h ms. timers m h \<noteq> Some (Interval ms t))"
    proof (cases "\<forall>h ms. timers m h \<noteq> Some (Interval ms t)")
      case True
      then show ?thesis by simp
    next
      case False
      then obtain h ms where "timers m h = Some (Interval ms t)" by auto
      from inv_live [OF inv this] Some have "\<not> terminal (status p)" by auto
      with \<open>\<not> snd (updateRecord env p)\<close> show ?thesis by (simp add: terminal_tick)
    qed
    then show ?thesis unfolding m1 by (rule inv_store [OF inv])
  qed
qed

lemma display_unknown: "progressData m t = None \<Longrightarrow> displayProgress t m = Inr m"
  by (simp add: displayProgress_def)

lemma display_known:
  "progressData m t = Some p \<Longrightarrow>
   displayProgress t m =
     (if \<not> bar_ok p then Inl (RangeError, print [Header t (status p) (currentStep p)] m)
      else if terminal (status p) then Inr (setTimeout 3000 t (print (screen_lines t p) m))
      else Inr (print (screen_lines t p) m))"
  by (auto simp: displayProgress_def Let_def bar_ok_def screen_lines_def terminal_def
      print_print split: option.splits)

lemma inv_display:
  assumes inv: "monitor_inv m"
  shows "case displayProgress t m of Inl (e, m2) \<Rightarrow> monitor_inv m2 | Inr m2 \<Rightarrow> monitor_inv m2"
proof (cases "progressData m t")
  case None
  with inv show ?thesis by (simp add: display_unknown)
next
  case (Some p)
  with inv show ?thesis by (simp add: display_known inv_setTimeout)
qed

lemma inv_callback:
  assumes inv: "monitor_inv m"
  shows "monitor_inv (intervalCallback t env m)"
proof (cases "updateTaskProgress t env m")
  case (Inl a)
  then obtain e m1 where a: "a = (e, m1)" by (cases a)
  with Inl have "m1 = m" by (cases "db_ok env")
      (auto simp: updateTaskProgress_def Let_def split: option.splits prod.splits)
  with Inl a inv show ?thesis by (simp add: intervalCallback_def inv_stopMonitoring)
next
  case (Inr m1)
  have i1: "monitor_inv m1" by (rule inv_update [OF inv Inr])
  from inv_display [OF i1, of t] Inr show ?thesis
    by (auto simp: intervalCallback_def inv_stopMonitoring split: sum.splits)
qed

lemma fire_timeout:
  "timers m h = Some (Timeout ms t) \<Longrightarrow>
   fire h env m = stopMonitoring t (m\<lparr>timers := (timers m)(h := None)\<rparr>)"
  by (simp add: fire_def)

lemma fire_interval:
  "timers m h = Some (Interval ms t) \<Longrightarrow> fire h env m = intervalCallback t env m"
  by (simp add: fire_def)

lemma fire_cleared: "timers m h = None \<Longrightarrow> fire h env m = m"
  by (simp add: fire_def)

lemma inv_fire:
  assumes inv: "monitor_inv m"
  shows "monitor_inv (fire h env m)"
proof (cases "timers m h")
  case None
  with inv show ?thesis by (simp add: fire_def)
next
  case (Some tm)
  show ?thesis
  proof (cases tm)
    case (Interval ms t)
    with Some inv show ?thesis by (simp add: fire_def inv_callback)
  next
    case (Timeout ms t)
    have "monitor_inv (m\<lparr>timers := (timers m)(h := None)\<rparr>)"
    proof (rule monitor_invI)
      fix t' h'
      assume "activeMonitors (m\<lparr>timers := (timers m)(h := None)\<rparr>) t' = Some h'"
      then have "timers m h' = Some (Interval 1000 t')" using inv by (simp add: inv_registered)
      with Some Timeout show "timers (m\<lparr>timers := (timers m)(h := None)\<rparr>) h' = Some (Interval 1000 t')"
        by auto
    next
      fix h' ms' t'
      assume "timers (m\<lparr>timers := (timers m)(h := None)\<rparr>) h' = Some (Interval ms' t')"
      then have "timers m h' = Some (Interval ms' t')" by (simp split: if_splits)
      from inv_live [OF inv this]
      show "activeMonitors (m\<lparr>timers := (timers m)(h := None)\<rparr>) t' = Some h' \<and>
            0 < listeners (m\<lparr>timers := (timers m)(h := None)\<rparr>) t' \<and>
            (\<exists>p. progressData (m\<lparr>timers := (timers m)(h := None)\<rparr>) t' = Some p \<and>
                 \<not> terminal (status p))"
        by simp
    next
      fix h'
      assume "next_handle (m\<lparr>timers := (timers m)(h := None)\<rparr>) \<le> h'"
      then show "timers (m\<lparr>timers := (timers m)(h := None)\<rparr>) h' = None"
        using inv by (simp add: inv_unused)
    qed
    with Some Timeout show ?thesis by (simp add: fire_def inv_stopMonitoring)
  qed
qed

lemma inv_step: "monitor_inv m \<Longrightarrow> monitor_inv (step e m)"
proof (cases e)
  case (Start t)
  assume inv: "monitor_inv m"
  obtain m' where m': "startMonitoring t m = Inr m'" using startMonitoring_returns by blast
  with inv_startMonitoring [OF inv m'] Start show ?thesis
    by (simp add: startRealTimeMonitoring_def)
next
  case (Fire h env)
  assume "monitor_inv m"
  with Fire show ?thesis by (simp add: inv_fire)
qed

lemma inv_run: "monitor_inv m \<Longrightarrow> monitor_inv (run es m)"
  by (induction es arbitrary: m) (simp_all add: inv_step)

lemma inv_reachable: "monitor_inv (run es empty_monitor)"
  by (rule inv_run [OF inv_empty])

lemma watching_fresh: "run [Start ''t1''] empty_monitor = watching (fresh ''t1'')"
  by (simp add: startRealTimeMonitoring_def startMonitoring_def empty_monitor_def watching_def
      print_def Let_def)

lemma inv_watching: "\<not> terminal (status p) \<Longrightarrow> monitor_inv (watching p)"
  by (rule monitor_invI) (auto simp: watching_def split: if_splits)

lemma callback_db_down:
  "\<not> db_ok env \<Longrightarrow>
   intervalCallback t env m = stopMonitoring t (print [ErrorLine DbError] m)"
  by (simp add: intervalCallback_def update_db_down)

lemma callback_unknown:
  "db_ok env \<Longrightarrow> progressData m t = None \<Longrightarrow> intervalCallback t env m = m"
  by (simp add: intervalCallback_def update_unknown display_unknown)

lemma callback_known:
  assumes "db_ok env" "progressData m t = Some p"
  shows "intervalCallback t env m =
     (let p' = tick env p;
          m1 = (if snd (updateRecord env p) then emit t m else m)
                 \<lparr>progressData := (progressData m)(t \<mapsto> p')\<rparr>
      in if \<not> bar_ok p'
         then stopMonitoring t
                (print [Header t (status p') (currentStep p'), ErrorLine RangeError] m1)
         else if terminal (status p') then setTimeout 3000 t (print (screen_lines t p') m1)
         else print (screen_lines t p') m1)"
  using assms
  by (simp add: intervalCallback_def update_known display_known emit_fields print_print Let_def)

subsection \<open>The records of a monitor started from nothing\<close>

text \<open>
  The monitor-level form of the fixed point of C1: whatever is started and whichever
  timers fire, every record the monitor holds is the one \<open>startMonitoring\<close> created. No
  run from the new monitor holds a running, completed or failed record, so what lines 760
  to 795 do to a running record is seen in no run.
\<close>

lemma bar_ok_fresh: "bar_ok (fresh t)"
  by (simp add: bar_ok_def fresh_def js_round_def)

lemma callback_fresh:
  assumes "progressData m t = None \<or> progressData m t = Some (fresh t)"
  shows "progressData (intervalCallback t env m) = progressData m"
proof (cases "db_ok env")
  case False
  then show ?thesis by (simp add: callback_db_down stopMonitoring_fields print_fields)
next
  case True
  show ?thesis
  proof (cases "progressData m t")
    case None
    with True show ?thesis by (simp add: callback_unknown)
  next
    case (Some p)
    with assms have p: "p = fresh t" by simp
    have u: "updateRecord env (fresh t) = (fresh t, False)"
      by (rule tick_pending_no_log) (simp_all add: fresh_def)
    have st: "(progressData m)(t \<mapsto> fresh t) = progressData m"
      using Some p by (auto simp: fun_upd_idem_iff)
    have nt: "\<not> terminal (status (fresh t))" by (simp add: fresh_def terminal_def)
    show ?thesis
      using True Some p
      by (simp add: callback_known Let_def tick_def u bar_ok_fresh nt print_fields st)
  qed
qed

lemma fresh_records_step:
  assumes "\<forall>t p. progressData m t = Some p \<longrightarrow> p = fresh t"
  shows "\<forall>t p. progressData (step e m) t = Some p \<longrightarrow> p = fresh t"
proof (cases e)
  case (Start t')
  show ?thesis
  proof (cases "activeMonitors m t'")
    case None
    with Start assms show ?thesis
      by (simp add: startRealTimeMonitoring_def startMonitoring_inactive)
  next
    case (Some h)
    with Start assms show ?thesis
      by (simp add: startRealTimeMonitoring_def startMonitoring_active)
  qed
next
  case (Fire h env)
  show ?thesis
  proof (cases "timers m h")
    case None
    with Fire assms show ?thesis by (simp add: fire_cleared)
  next
    case (Some tm)
    show ?thesis
    proof (cases tm)
      case (Interval ms t')
      have "progressData m t' = None \<or> progressData m t' = Some (fresh t')"
        using assms by (cases "progressData m t'") auto
      then have "progressData (intervalCallback t' env m) = progressData m"
        by (rule callback_fresh)
      with Fire Some Interval assms show ?thesis by (simp add: fire_interval)
    next
      case (Timeout ms t')
      with Fire Some assms show ?thesis by (simp add: fire_timeout stopMonitoring_fields)
    qed
  qed
qed

lemma fresh_records_run:
  "\<forall>t p. progressData m t = Some p \<longrightarrow> p = fresh t \<Longrightarrow>
   \<forall>t p. progressData (run es m) t = Some p \<longrightarrow> p = fresh t"
proof (induction es arbitrary: m)
  case Nil
  then show ?case by simp
next
  case (Cons e es)
  from fresh_records_step [OF Cons.prems] have
    "\<forall>t p. progressData (step e m) t = Some p \<longrightarrow> p = fresh t" .
  from Cons.IH [OF this] show ?case by simp
qed

lemma reachable_records_are_fresh:
  "progressData (run es empty_monitor) t = Some p \<Longrightarrow> p = fresh t"
proof -
  have "\<forall>t p. progressData empty_monitor t = Some p \<longrightarrow> p = fresh t"
    by (simp add: empty_monitor_def)
  from fresh_records_run [OF this, of es] show
    "progressData (run es empty_monitor) t = Some p \<Longrightarrow> p = fresh t" by blast
qed

subsection \<open>C3: a failure of the status source\<close>

text \<open>
  C3 says that a failing tick appends an error entry to the log, leaves the status
  unchanged and lets the next tick run, the task being marked failed and stopped only
  after a fixed number of failures in a row. With task \<open>t1\<close> just started, one tick in
  which \<open>DatabaseManager.getInstance()\<close> rejects removes the timer and the registration at
  once, the record is what it was (no entry is added to its log), and the timer does
  nothing when the next tick is due.
\<close>

theorem first_failure_stops_monitoring:
  "activeMonitors (fire 0 (db_down_at 2000) (watching (fresh ''t1''))) ''t1'' = None \<and>
   timers (fire 0 (db_down_at 2000) (watching (fresh ''t1''))) 0 = None \<and>
   progressData (fire 0 (db_down_at 2000) (watching (fresh ''t1''))) ''t1''
     = Some (fresh ''t1'') \<and>
   fire 0 (tick_at 3000 (1 / 2)) (fire 0 (db_down_at 2000) (watching (fresh ''t1'')))
     = fire 0 (db_down_at 2000) (watching (fresh ''t1''))"
proof -
  have f: "fire 0 (db_down_at 2000) (watching (fresh ''t1'')) =
           stopMonitoring ''t1'' (print [ErrorLine DbError] (watching (fresh ''t1'')))"
    by (simp add: fire_def watching_def callback_db_down db_down_at_def)
  show ?thesis unfolding f
    by (simp add: stopMonitoring_fields print_fields fire_def) (simp add: watching_def)
qed


text \<open>
  C3, amended: when the status source fails in a tick, the callback prints the error on
  the console and stops monitoring the task on this first failure: the task is no longer
  registered and its timer is cleared. No record changes, so the status and the log of the
  task stay as they were and the task is never marked failed.
\<close>

theorem source_failure_stops_monitoring:
  assumes "\<not> db_ok env"
  shows "intervalCallback t env m = stopMonitoring t (print [ErrorLine DbError] m) \<and>
         progressData (intervalCallback t env m) = progressData m \<and>
         activeMonitors (intervalCallback t env m) t = None \<and>
         (\<forall>h. activeMonitors m t = Some h \<longrightarrow> timers (intervalCallback t env m) h = None)"
  using assms by (simp add: callback_db_down stopMonitoring_fields print_fields)

theorem source_failure_stops_monitoring_witness:
  "intervalCallback ''t1'' (db_down_at 2000) (watching (fresh ''t1''))
     = stopMonitoring ''t1'' (print [ErrorLine DbError] (watching (fresh ''t1''))) \<and>
   progressData (intervalCallback ''t1'' (db_down_at 2000) (watching (fresh ''t1'')))
     = progressData (watching (fresh ''t1'')) \<and>
   activeMonitors (intervalCallback ''t1'' (db_down_at 2000) (watching (fresh ''t1''))) ''t1''
     = None \<and>
   activeMonitors (watching (fresh ''t1'')) ''t1'' = Some 0 \<and>
   timers (intervalCallback ''t1'' (db_down_at 2000) (watching (fresh ''t1''))) 0 = None"
proof -
  have a: "\<not> db_ok (db_down_at 2000)" by (simp add: db_down_at_def)
  have b: "activeMonitors (watching (fresh ''t1'')) ''t1'' = Some 0" by (simp add: watching_def)
  from source_failure_stops_monitoring [OF a, of "''t1''" "watching (fresh ''t1'')"] b
  show ?thesis by blast
qed


subsection \<open>C5: the task id given to \<open>startMonitoring\<close>\<close>

text \<open>
  C5 says that \<open>startMonitoring\<close> raises an error on an empty task id. On a new monitor
  the call with the empty id returns normally and the empty id is monitored by timer 0.
\<close>

theorem empty_id_is_monitored:
  "\<not> isl (startMonitoring [] empty_monitor) \<and>
   activeMonitors (projr (startMonitoring [] empty_monitor)) [] = Some 0 \<and>
   timers (projr (startMonitoring [] empty_monitor)) 0 = Some (Interval 1000 [])"
  by (simp add: startMonitoring_def empty_monitor_def print_def Let_def)


text \<open>
  C5, amended: \<open>startMonitoring\<close> does not inspect the task id. For every id that is not
  monitored, the empty one included, it returns normally and begins monitoring: a new
  pending record, an interval timer of 1000 ms registered for the id, and one more
  listener of its completion event.
\<close>

theorem startMonitoring_any_id:
  assumes "activeMonitors m t = None"
  shows "\<exists>m'. startMonitoring t m = Inr m' \<and>
           activeMonitors m' t = Some (next_handle m) \<and>
           timers m' (next_handle m) = Some (Interval 1000 t) \<and>
           progressData m' t = Some (fresh t) \<and>
           listeners m' t = Suc (listeners m t)"
  using assms by (simp add: startMonitoring_inactive)

theorem startMonitoring_any_id_witness:
  "\<exists>m'. startMonitoring [] empty_monitor = Inr m' \<and>
         activeMonitors m' [] = Some 0 \<and>
         timers m' 0 = Some (Interval 1000 []) \<and>
         progressData m' [] = Some (fresh []) \<and>
         listeners m' [] = 1"
proof -
  have a: "activeMonitors empty_monitor [] = None" by (simp add: empty_monitor_def)
  from startMonitoring_any_id [OF a] show ?thesis by (simp add: empty_monitor_def)
qed


subsection \<open>C8: starting the same task twice\<close>

text \<open>
  C8: in every state that satisfies the invariant (every state the monitor reaches does),
  a call of \<open>startMonitoring\<close> followed by a second call with the same id leaves the state
  of the first call: the second call changes nothing. A call for a task that is being
  monitored changes nothing either. Afterwards the task has exactly one live interval
  timer, the registered one, and a record.
\<close>

theorem duplicate_start_is_noop:
  assumes inv: "monitor_inv m"
  shows "\<exists>m1. startMonitoring t m = Inr m1 \<and> startMonitoring t m1 = Inr m1 \<and>
           (activeMonitors m t \<noteq> None \<longrightarrow> m1 = m) \<and>
           (\<exists>h. activeMonitors m1 t = Some h \<and>
                (\<forall>h' ms. timers m1 h' = Some (Interval ms t) \<longleftrightarrow> h' = h \<and> ms = 1000)) \<and>
           (\<exists>p. progressData m1 t = Some p)"
proof -
  obtain m1 where m1: "startMonitoring t m = Inr m1" using startMonitoring_returns by blast
  have inv1: "monitor_inv m1" by (rule inv_startMonitoring [OF inv m1])
  obtain h where h: "activeMonitors m1 t = Some h"
    using m1 by (cases "activeMonitors m t") (auto simp: startMonitoring_inactive startMonitoring_active)
  have again: "startMonitoring t m1 = Inr m1" using h by (simp add: startMonitoring_active)
  have same: "activeMonitors m t \<noteq> None \<longrightarrow> m1 = m"
    using m1 by (auto simp: startMonitoring_active)
  have live: "timers m1 h = Some (Interval 1000 t)" by (rule inv_registered [OF inv1 h])
  have one: "timers m1 h' = Some (Interval ms t) \<longleftrightarrow> h' = h \<and> ms = 1000" for h' ms
  proof
    assume a: "timers m1 h' = Some (Interval ms t)"
    from inv_live [OF inv1 a] h have "h' = h" by simp
    with a live show "h' = h \<and> ms = 1000" by simp
  next
    assume "h' = h \<and> ms = 1000"
    with live show "timers m1 h' = Some (Interval ms t)" by simp
  qed
  from inv_live [OF inv1 live] have "\<exists>p. progressData m1 t = Some p" by auto
  with m1 again same h one show ?thesis by blast
qed

theorem duplicate_start_is_noop_witness:
  "monitor_inv (watching (fresh ''t1'')) \<and>
   startMonitoring ''t1'' (watching (fresh ''t1'')) = Inr (watching (fresh ''t1'')) \<and>
   activeMonitors (watching (fresh ''t1'')) ''t1'' = Some 0 \<and>
   (\<forall>h' ms. timers (watching (fresh ''t1'')) h' = Some (Interval ms ''t1'')
        \<longleftrightarrow> h' = 0 \<and> ms = 1000)"
proof -
  let ?m = "watching (fresh ''t1'')"
  have inv: "monitor_inv ?m" by (rule inv_watching) (simp add: fresh_def terminal_def)
  have act: "activeMonitors ?m ''t1'' = Some 0" by (simp add: watching_def)
  from duplicate_start_is_noop [OF inv, of "''t1''"] obtain m1 h where
    a: "startMonitoring ''t1'' ?m = Inr m1" "activeMonitors ?m ''t1'' \<noteq> None \<longrightarrow> m1 = ?m"
      "activeMonitors m1 ''t1'' = Some h"
      "\<forall>h' ms. timers m1 h' = Some (Interval ms ''t1'') \<longleftrightarrow> h' = h \<and> ms = 1000"
    by blast
  from a(2) act have m1: "m1 = ?m" by simp
  with a(3) act have "h = 0" by simp
  with a(1,4) m1 inv act show ?thesis by simp
qed

end
